theory Spec2Isabelle
  imports Main "HOL-Library.Sublist"
begin

section \<open>The verification runner of \<^verbatim>\<open>verify_toc_tracking.py\<close>\<close>

text \<open>
  The script drives a browser through a fixed sequence of calls of a browser automation
  library. The library and the application under test are not part of the repository, so
  the outcome of every library call is a parameter of the model: an environment answers
  each call with a normal return or with a raised exception. What the model fixes is what
  the script fixes: which calls are made, with which arguments, in which order, and how
  control flows through \<^verbatim>\<open>async with\<close>, \<^verbatim>\<open>try\<close>, \<^verbatim>\<open>except Exception\<close> and
  \<^verbatim>\<open>finally\<close>.
\<close>

subsection \<open>Exceptions, locators and calls\<close>

text \<open>
  A raised Python exception. \<open>is_Exception\<close> says whether it is an instance of the class
  \<^verbatim>\<open>Exception\<close>, which is what \<^verbatim>\<open>except Exception as e\<close> tests (KeyboardInterrupt,
  SystemExit and asyncio's CancelledError are exceptions outside that class);
  \<open>exc_str\<close> is \<^verbatim>\<open>str(e)\<close>, the text the handler prints.
\<close>

datatype exc = Exc (is_Exception: bool) (exc_str: string)

text \<open>
  Locators as the script builds them: \<^verbatim>\<open>page.locator(css)\<close>,
  \<^verbatim>\<open>page.get_by_title(t)\<close> and \<^verbatim>\<open>loc.first()\<close>.
\<close>

datatype locator = Css string | ByTitle string | First locator

text \<open>
  The calls of the script that reach outside it, with the arguments the script passes.
  Timeouts are in milliseconds. \<open>Screenshot path full_page\<close> carries the optional
  keyword argument \<^verbatim>\<open>full_page\<close> of the library call, \<open>None\<close> when the call does not
  pass it. \<open>Hover\<close> takes the selector of \<^verbatim>\<open>page.hover\<close> and the \<open>x\<close> and \<open>y\<close> of
  its \<^verbatim>\<open>position\<close>.
\<close>

datatype call =
    AsyncPlaywrightEnter
  | ChromiumLaunch bool
  | NewPage
  | Goto string nat
  | ExpectVisible locator nat
  | Click locator
  | Hover locator int int
  | Evaluate locator string
  | WaitForTimeout nat
  | Screenshot string "bool option"
  | Print string
  | BrowserClose
  | AsyncPlaywrightExit

text \<open>
  The log of a run: every call made, in order, with its outcome (\<open>None\<close> for a normal
  return, \<open>Some e\<close> when the call raised \<open>e\<close>). The environment sees the calls made so
  far and the call being made.
\<close>

type_synonym log = "(call \<times> exc option) list"
type_synonym env = "call list \<Rightarrow> call \<Rightarrow> exc option"
type_synonym result = "exc + unit"

definition perform :: "env \<Rightarrow> call \<Rightarrow> log \<Rightarrow> result \<times> log" where
  "perform env c lg =
     (case env (map fst lg) c of
        None \<Rightarrow> (Inr (), lg @ [(c, None)])
      | Some e \<Rightarrow> (Inl e, lg @ [(c, Some e)]))"

text \<open>
  \<^verbatim>\<open>print\<close> writes a line to standard output; the model records the line and lets the
  call return.
\<close>

definition print :: "string \<Rightarrow> log \<Rightarrow> result \<times> log" where
  "print s lg = (Inr (), lg @ [(Print s, None)])"

text \<open>Statements in sequence: the first call that raises ends the sequence.\<close>

fun run_steps :: "env \<Rightarrow> call list \<Rightarrow> log \<Rightarrow> result \<times> log" where
  "run_steps env [] lg = (Inr (), lg)"
| "run_steps env (c # cs) lg =
     (case perform env c lg of
        (Inl e, lg') \<Rightarrow> (Inl e, lg')
      | (Inr u, lg') \<Rightarrow> run_steps env cs lg')"

subsection \<open>The script\<close>

definition book_link_selector :: string where
  "book_link_selector = ''a[href*='' @ [CHR 0x27] @ ''/reader?id='' @ [CHR 0x27] @ '']''"

definition reader_container_selector :: string where
  "reader_container_selector = ''.epub-container''"

definition toc_button :: locator where
  "toc_button = ByTitle ''Table of Contents''"

definition toc_panel_selector :: string where
  "toc_panel_selector = ''nav''"

definition reader_container :: locator where
  "reader_container = Css reader_container_selector"

definition scroll_script :: string where
  "scroll_script = ''(element) => { element.scrollTo(0, element.scrollHeight / 2); }''"

definition verification_png :: string where
  "verification_png = ''jules-scratch/verification/verification.png''"

definition error_png :: string where
  "error_png = ''jules-scratch/verification/error.png''"

text \<open>The awaited calls of the \<^verbatim>\<open>try\<close> body (lines 11 to 45), in the order written.\<close>

definition steps :: "call list" where
  "steps =
     [Goto ''http://localhost:3000/library'' 60000,
      ExpectVisible (First (Css book_link_selector)) 30000,
      Click (First (Css book_link_selector)),
      ExpectVisible (Css reader_container_selector) 30000,
      Hover (Css ''body'') 1 1,
      ExpectVisible toc_button 10000,
      Click toc_button,
      ExpectVisible (Css toc_panel_selector) 10000,
      Evaluate reader_container scroll_script,
      WaitForTimeout 2000,
      Screenshot verification_png None]"

text \<open>The \<^verbatim>\<open>try\<close> body: the steps, then the success message (line 47).\<close>

definition try_body :: "env \<Rightarrow> log \<Rightarrow> result \<times> log" where
  "try_body env lg =
     (case run_steps env steps lg of
        (Inl e, lg') \<Rightarrow> (Inl e, lg')
      | (Inr u, lg') \<Rightarrow> print ''Screenshot taken successfully.'' lg')"

text \<open>The body of \<^verbatim>\<open>except Exception as e\<close> (lines 50 to 52).\<close>

definition handler :: "env \<Rightarrow> exc \<Rightarrow> log \<Rightarrow> result \<times> log" where
  "handler env e lg =
     (case print (''An error occurred: '' @ exc_str e) lg of
        (Inl e', lg') \<Rightarrow> (Inl e', lg')
      | (Inr u, lg') \<Rightarrow> perform env (Screenshot error_png None) lg')"

text \<open>
  The \<^verbatim>\<open>try\<close> statement (lines 9 to 55). An exception of the body that is an instance of
  \<^verbatim>\<open>Exception\<close> runs the handler, any other one stays pending; the \<^verbatim>\<open>finally\<close>
  block runs in every case, and an exception of its own replaces the pending one.
\<close>

definition try_statement :: "env \<Rightarrow> log \<Rightarrow> result \<times> log" where
  "try_statement env lg =
     (let (r, lg1) = try_body env lg;
          (r', lg2) = (case r of
                         Inr u \<Rightarrow> (Inr (), lg1)
                       | Inl e \<Rightarrow> if is_Exception e then handler env e lg1 else (Inl e, lg1));
          (r'', lg3) = perform env BrowserClose lg2
      in case r'' of Inl e'' \<Rightarrow> (Inl e'', lg3) | Inr u \<Rightarrow> (r', lg3))"

text \<open>
  \<^verbatim>\<open>main\<close> (lines 4 to 55). Entering the \<^verbatim>\<open>async with\<close> block may raise; once entered,
  its exit runs however the block ends, and does not swallow the block's exception.
\<close>

definition with_block :: "env \<Rightarrow> log \<Rightarrow> result \<times> log" where
  "with_block env lg =
     (case perform env (ChromiumLaunch True) lg of
        (Inl e, lg1) \<Rightarrow> (Inl e, lg1)
      | (Inr u, lg1) \<Rightarrow>
          (case perform env NewPage lg1 of
             (Inl e, lg2) \<Rightarrow> (Inl e, lg2)
           | (Inr u', lg2) \<Rightarrow> try_statement env lg2))"

definition main :: "env \<Rightarrow> result \<times> log" where
  "main env =
     (case perform env AsyncPlaywrightEnter [] of
        (Inl e, lg) \<Rightarrow> (Inl e, lg)
      | (Inr u, lg) \<Rightarrow>
          (let (r, lg1) = with_block env lg;
               (r', lg2) = perform env AsyncPlaywrightExit lg1
           in case r' of Inl e' \<Rightarrow> (Inl e', lg2) | Inr u' \<Rightarrow> (r, lg2)))"

text \<open>
  The program (lines 57 and 58): \<^verbatim>\<open>asyncio.run(main())\<close> with no handler around it, so an
  exception that leaves \<open>main\<close> ends the process as an unhandled exception.
\<close>

definition program :: "env \<Rightarrow> result \<times> log" where
  "program env = main env"

subsection \<open>Reading a log\<close>

definition calls :: "log \<Rightarrow> call list" where
  "calls lg = map fst lg"

abbreviation ok :: "call \<Rightarrow> call \<times> exc option" where
  "ok c \<equiv> (c, None)"

text \<open>A screenshot call that returns has written its file; one that raises has not.\<close>

fun wrote :: "call \<times> exc option \<Rightarrow> string list" where
  "wrote (Screenshot p fp, None) = [p]"
| "wrote x = []"

definition files_written :: "log \<Rightarrow> string list" where
  "files_written lg = concat (map wrote lg)"

fun line_of :: "call \<times> exc option \<Rightarrow> string list" where
  "line_of (Print s, r) = [s]"
| "line_of x = []"

definition stdout :: "log \<Rightarrow> string list" where
  "stdout lg = concat (map line_of lg)"


fun is_screenshot :: "call \<Rightarrow> bool" where
  "is_screenshot (Screenshot p fp) = True"
| "is_screenshot c = False"





fun is_launch :: "call \<Rightarrow> bool" where
  "is_launch (ChromiumLaunch h) = True"
| "is_launch c = False"



subsection \<open>Environments for concrete runs\<close>

text \<open>The address the first step navigates to.\<close>

definition library_url :: string where
  "library_url = ''http://localhost:3000/library''"

text \<open>Every call returns.\<close>

definition env_ok :: env where
  "env_ok h c = None"

text \<open>The listed calls raise the listed exceptions, every other call returns.\<close>

definition env_of :: "(call \<times> exc) list \<Rightarrow> env" where
  "env_of fs h c = map_of fs c"

definition timeout_error :: exc where
  "timeout_error = Exc True ''Timeout 60000ms exceeded.''"

definition cancelled :: exc where
  "cancelled = Exc False []"

definition target_closed :: exc where
  "target_closed = Exc True ''Target page, context or browser has been closed''"

text \<open>The navigation is interrupted: the first step raises an exception outside \<^verbatim>\<open>Exception\<close>.\<close>

definition env_interrupted :: env where
  "env_interrupted = env_of [(Goto library_url 60000, cancelled)]"

text \<open>The application is not reachable: the navigation times out.\<close>

definition env_unreachable :: env where
  "env_unreachable = env_of [(Goto library_url 60000, timeout_error)]"

text \<open>The browser is launched but the page cannot be opened.\<close>

definition env_no_page :: env where
  "env_no_page = env_of [(NewPage, target_closed)]"



text \<open>
  The click on the contents control times out and the page can no longer be captured.
\<close>

definition env_toc_click_no_capture :: env where
  "env_toc_click_no_capture =
     env_of [(Click toc_button, timeout_error), (Screenshot error_png None, target_closed)]"

section \<open>The shape of every run\<close>

text \<open>
  A sequence of calls either returns, with every call logged as returned, or stops at the
  first call that raises, with the calls before it logged as returned.
\<close>

lemma run_steps_shape:
  "run_steps env cs lg = (r, lg') \<Longrightarrow>
     (r = Inr () \<and> lg' = lg @ map ok cs) \<or>
     (\<exists>k e. k < length cs \<and> r = Inl e \<and> lg' = lg @ map ok (take k cs) @ [(cs ! k, Some e)])"
proof (induction cs arbitrary: lg)
  case Nil
  then show ?case by simp
next
  case (Cons a cs)
  show ?case
  proof (cases "env (map fst lg) a")
    case None
    with Cons.prems have "run_steps env cs (lg @ [ok a]) = (r, lg')"
      by (simp add: perform_def)
    from Cons.IH [OF this] show ?thesis
    proof
      assume "r = Inr () \<and> lg' = (lg @ [ok a]) @ map ok cs"
      then show ?thesis by simp
    next
      assume "\<exists>k e. k < length cs \<and> r = Inl e \<and>
                lg' = (lg @ [ok a]) @ map ok (take k cs) @ [(cs ! k, Some e)]"
      then obtain k e where
        "k < length cs" "r = Inl e" "lg' = (lg @ [ok a]) @ map ok (take k cs) @ [(cs ! k, Some e)]"
        by blast
      then have "Suc k < length (a # cs) \<and> r = Inl e \<and>
                 lg' = lg @ map ok (take (Suc k) (a # cs)) @ [((a # cs) ! Suc k, Some e)]"
        by simp
      then show ?thesis by blast
    qed
  next
    case (Some e)
    with Cons.prems have "r = Inl e" "lg' = lg @ [(a, Some e)]"
      by (simp_all add: perform_def)
    then have "0 < length (a # cs) \<and> r = Inl e \<and>
               lg' = lg @ map ok (take 0 (a # cs)) @ [((a # cs) ! 0, Some e)]"
      by simp
    then show ?thesis by blast
  qed
qed

lemma perform_cases:
  obtains (returns) "perform env c lg = (Inr (), lg @ [ok c])"
  | (raises) e where "perform env c lg = (Inl e, lg @ [(c, Some e)])"
  by (cases "env (map fst lg) c") (auto simp: perform_def)

lemma try_body_shape:
  assumes "try_body env lg = (r, lg')"
  shows "(r = Inr () \<and> lg' = lg @ map ok steps @ [ok (Print ''Screenshot taken successfully.'')]) \<or>
     (\<exists>k e. k < length steps \<and> r = Inl e \<and>
            lg' = lg @ map ok (take k steps) @ [(steps ! k, Some e)])"
proof -
  obtain r0 lg0 where run: "run_steps env steps lg = (r0, lg0)"
    by (cases "run_steps env steps lg")
  from run_steps_shape [OF run] show ?thesis
  proof
    assume "r0 = Inr () \<and> lg0 = lg @ map ok steps"
    with run assms show ?thesis by (simp add: try_body_def print_def)
  next
    assume "\<exists>k e. k < length steps \<and> r0 = Inl e \<and>
              lg0 = lg @ map ok (take k steps) @ [(steps ! k, Some e)]"
    then obtain k e where "k < length steps" "r0 = Inl e"
        "lg0 = lg @ map ok (take k steps) @ [(steps ! k, Some e)]"
      by blast
    with run assms show ?thesis by (auto simp: try_body_def)
  qed
qed

lemma try_statement_shape:
  assumes "try_statement env lg = (r, lg')"
  obtains (returned) rc where
      "lg' = lg @ map ok steps @ [ok (Print ''Screenshot taken successfully.''), (BrowserClose, rc)]"
      "r = (case rc of Some e3 \<Rightarrow> Inl e3 | None \<Rightarrow> Inr ())"
  | (caught) k e rs rc where
      "k < length steps" "is_Exception e"
      "lg' = lg @ map ok (take k steps) @
         [(steps ! k, Some e), ok (Print (''An error occurred: '' @ exc_str e)),
          (Screenshot error_png None, rs), (BrowserClose, rc)]"
      "r = (case rc of Some e3 \<Rightarrow> Inl e3
            | None \<Rightarrow> (case rs of Some e2 \<Rightarrow> Inl e2 | None \<Rightarrow> Inr ()))"
  | (uncaught) k e rc where
      "k < length steps" "\<not> is_Exception e"
      "lg' = lg @ map ok (take k steps) @ [(steps ! k, Some e), (BrowserClose, rc)]"
      "r = (case rc of Some e3 \<Rightarrow> Inl e3 | None \<Rightarrow> Inl e)"
proof -
  obtain r0 lg0 where body: "try_body env lg = (r0, lg0)"
    by (cases "try_body env lg")
  from try_body_shape [OF body] show ?thesis
  proof
    assume ok: "r0 = Inr () \<and> lg0 = lg @ map ok steps @ [ok (Print ''Screenshot taken successfully.'')]"
    show ?thesis
    proof (cases rule: perform_cases [of env BrowserClose lg0])
      case returns
      with ok body assms show ?thesis
        by (intro returned [of None]) (simp_all add: try_statement_def)
    next
      case (raises e3)
      with ok body assms show ?thesis
        by (intro returned [of "Some e3"]) (simp_all add: try_statement_def)
    qed
  next
    assume "\<exists>k e. k < length steps \<and> r0 = Inl e \<and>
              lg0 = lg @ map ok (take k steps) @ [(steps ! k, Some e)]"
    then obtain k e where k: "k < length steps" and r0: "r0 = Inl e"
        and lg0: "lg0 = lg @ map ok (take k steps) @ [(steps ! k, Some e)]"
      by blast
    show ?thesis
    proof (cases "is_Exception e")
      case True
      define lg1 where "lg1 = lg0 @ [ok (Print (''An error occurred: '' @ exc_str e))]"
      show ?thesis
      proof (cases rule: perform_cases [of env "Screenshot error_png None" lg1])
        case shot: returns
        show ?thesis
        proof (cases rule: perform_cases [of env BrowserClose "lg1 @ [ok (Screenshot error_png None)]"])
          case returns
          with shot True k r0 lg0 body assms show ?thesis
            by (intro caught [of k e None None])
               (simp_all add: try_statement_def handler_def print_def lg1_def)
        next
          case (raises e3)
          with shot True k r0 lg0 body assms show ?thesis
            by (intro caught [of k e None "Some e3"])
               (simp_all add: try_statement_def handler_def print_def lg1_def)
        qed
      next
        case shot: (raises e2)
        show ?thesis
        proof (cases rule: perform_cases [of env BrowserClose "lg1 @ [(Screenshot error_png None, Some e2)]"])
          case returns
          with shot True k r0 lg0 body assms show ?thesis
            by (intro caught [of k e "Some e2" None])
               (simp_all add: try_statement_def handler_def print_def lg1_def)
        next
          case (raises e3)
          with shot True k r0 lg0 body assms show ?thesis
            by (intro caught [of k e "Some e2" "Some e3"])
               (simp_all add: try_statement_def handler_def print_def lg1_def)
        qed
      qed
    next
      case False
      show ?thesis
      proof (cases rule: perform_cases [of env BrowserClose lg0])
        case returns
        with False k r0 lg0 body assms show ?thesis
          by (intro uncaught [of k e None]) (simp_all add: try_statement_def)
      next
        case (raises e3)
        with False k r0 lg0 body assms show ?thesis
          by (intro uncaught [of k e "Some e3"]) (simp_all add: try_statement_def)
      qed
    qed
  qed
qed

text \<open>
  Every run of \<open>main\<close> has one of six shapes: the entry of the \<^verbatim>\<open>async with\<close> block
  raises; the launch raises; \<^verbatim>\<open>new_page\<close> raises; every step returns; a step raises an
  instance of \<^verbatim>\<open>Exception\<close>; a step raises another exception.
\<close>

lemma main_shape:
  assumes "main env = (r, lg)"
  obtains (enter_raises) e where
      "lg = [(AsyncPlaywrightEnter, Some e)]" "r = Inl e"
  | (launch_raises) e rx where
      "lg = [ok AsyncPlaywrightEnter, (ChromiumLaunch True, Some e), (AsyncPlaywrightExit, rx)]"
      "r = (case rx of Some e4 \<Rightarrow> Inl e4 | None \<Rightarrow> Inl e)"
  | (new_page_raises) e rx where
      "lg = [ok AsyncPlaywrightEnter, ok (ChromiumLaunch True), (NewPage, Some e),
             (AsyncPlaywrightExit, rx)]"
      "r = (case rx of Some e4 \<Rightarrow> Inl e4 | None \<Rightarrow> Inl e)"
  | (success) rc rx where
      "lg = [ok AsyncPlaywrightEnter, ok (ChromiumLaunch True), ok NewPage] @ map ok steps @
            [ok (Print ''Screenshot taken successfully.''), (BrowserClose, rc),
             (AsyncPlaywrightExit, rx)]"
      "r = (case rx of Some e4 \<Rightarrow> Inl e4
            | None \<Rightarrow> (case rc of Some e3 \<Rightarrow> Inl e3 | None \<Rightarrow> Inr ()))"
  | (handled) k e rs rc rx where
      "k < length steps" "is_Exception e"
      "lg = [ok AsyncPlaywrightEnter, ok (ChromiumLaunch True), ok NewPage] @
            map ok (take k steps) @
            [(steps ! k, Some e), ok (Print (''An error occurred: '' @ exc_str e)),
             (Screenshot error_png None, rs), (BrowserClose, rc), (AsyncPlaywrightExit, rx)]"
      "r = (case rx of Some e4 \<Rightarrow> Inl e4
            | None \<Rightarrow> (case rc of Some e3 \<Rightarrow> Inl e3
                | None \<Rightarrow> (case rs of Some e2 \<Rightarrow> Inl e2 | None \<Rightarrow> Inr ())))"
  | (unhandled) k e rc rx where
      "k < length steps" "\<not> is_Exception e"
      "lg = [ok AsyncPlaywrightEnter, ok (ChromiumLaunch True), ok NewPage] @
            map ok (take k steps) @
            [(steps ! k, Some e), (BrowserClose, rc), (AsyncPlaywrightExit, rx)]"
      "r = (case rx of Some e4 \<Rightarrow> Inl e4
            | None \<Rightarrow> (case rc of Some e3 \<Rightarrow> Inl e3 | None \<Rightarrow> Inl e))"
proof (cases rule: perform_cases [of env AsyncPlaywrightEnter "[]"])
  case (raises e)
  with assms show ?thesis
    by (intro enter_raises [of e]) (simp_all add: main_def)
next
  case enter: returns
  obtain r1 lg1 where blk: "with_block env [ok AsyncPlaywrightEnter] = (r1, lg1)"
    by (cases "with_block env [ok AsyncPlaywrightEnter]")
  obtain rx where exit: "perform env AsyncPlaywrightExit lg1 =
      ((case rx of Some e4 \<Rightarrow> Inl e4 | None \<Rightarrow> Inr ()), lg1 @ [(AsyncPlaywrightExit, rx)])"
  proof (cases rule: perform_cases [of env AsyncPlaywrightExit lg1])
    case returns
    then show ?thesis by (intro that [of None]) simp
  next
    case (raises e4)
    then show ?thesis by (intro that [of "Some e4"]) simp
  qed
  from assms enter blk exit
  have lg: "lg = lg1 @ [(AsyncPlaywrightExit, rx)]"
    and r: "r = (case rx of Some e4 \<Rightarrow> Inl e4 | None \<Rightarrow> r1)"
    by (auto simp: main_def split: option.splits)
  show ?thesis
  proof (cases rule: perform_cases [of env "ChromiumLaunch True" "[ok AsyncPlaywrightEnter]"])
    case (raises e)
    with blk lg r show ?thesis
      by (intro launch_raises [of e rx]) (auto simp: with_block_def)
  next
    case launch: returns
    show ?thesis
    proof (cases rule: perform_cases [of env NewPage
          "[ok AsyncPlaywrightEnter, ok (ChromiumLaunch True)]"])
      case (raises e)
      with launch blk lg r show ?thesis
        by (intro new_page_raises [of e rx]) (auto simp: with_block_def)
    next
      case returns
      with launch blk have ts: "try_statement env
          [ok AsyncPlaywrightEnter, ok (ChromiumLaunch True), ok NewPage] = (r1, lg1)"
        by (simp add: with_block_def)
      show ?thesis
      using ts
      proof (cases rule: try_statement_shape)
        case (returned rc)
        with lg r show ?thesis
          by (intro success [of rc rx]) (auto split: option.splits)
      next
        case (caught k e rs rc)
        with lg r show ?thesis
          by (intro handled [of k e rs rc rx]) (auto split: option.splits)
      next
        case (uncaught k e rc)
        with lg r show ?thesis
          by (intro unhandled [of k e rc rx]) (auto split: option.splits)
      qed
    qed
  qed
qed

section \<open>Evaluating the script\<close>

lemmas script_defs =
  steps_def book_link_selector_def reader_container_selector_def toc_button_def
  toc_panel_selector_def reader_container_def scroll_script_def verification_png_def
  error_png_def library_url_def

lemmas run_defs =
  main_def with_block_def try_statement_def try_body_def handler_def perform_def print_def
  env_of_def timeout_error_def cancelled_def target_closed_def

lemma steps_index:
  assumes "k < length steps"
  shows "k \<in> {0, 1, 2, 3, 4, 5, 6, 7, 8, 9, 10}"
proof -
  from assms have "k < 11" by (simp add: steps_def)
  then have "k = 0 \<or> k = 1 \<or> k = 2 \<or> k = 3 \<or> k = 4 \<or> k = 5 \<or> k = 6 \<or> k = 7 \<or>
             k = 8 \<or> k = 9 \<or> k = 10"
    by arith
  then show ?thesis by simp
qed

lemma main_env_ok:
  "main env_ok =
     (Inr (),
      [ok AsyncPlaywrightEnter, ok (ChromiumLaunch True), ok NewPage] @ map ok steps @
      [ok (Print ''Screenshot taken successfully.''), ok BrowserClose, ok AsyncPlaywrightExit])"
  by (simp add: run_defs env_ok_def steps_def)

lemma main_env_interrupted:
  "main env_interrupted =
     (Inl cancelled,
      [ok AsyncPlaywrightEnter, ok (ChromiumLaunch True), ok NewPage,
       (Goto library_url 60000, Some cancelled), ok BrowserClose, ok AsyncPlaywrightExit])"
  by (simp add: run_defs env_interrupted_def script_defs)

lemma main_env_unreachable:
  "main env_unreachable =
     (Inr (),
      [ok AsyncPlaywrightEnter, ok (ChromiumLaunch True), ok NewPage,
       (Goto library_url 60000, Some timeout_error),
       ok (Print ''An error occurred: Timeout 60000ms exceeded.''),
       ok (Screenshot error_png None), ok BrowserClose, ok AsyncPlaywrightExit])"
  by (simp add: run_defs env_unreachable_def script_defs)

lemma main_env_no_page:
  "main env_no_page =
     (Inl target_closed,
      [ok AsyncPlaywrightEnter, ok (ChromiumLaunch True), (NewPage, Some target_closed),
       ok AsyncPlaywrightExit])"
  by (simp add: run_defs env_no_page_def script_defs)



lemma main_env_toc_click_no_capture:
  "main env_toc_click_no_capture =
     (Inl target_closed,
      [ok AsyncPlaywrightEnter, ok (ChromiumLaunch True), ok NewPage] @ map ok (take 6 steps) @
      [(Click toc_button, Some timeout_error),
       ok (Print ''An error occurred: Timeout 60000ms exceeded.''),
       (Screenshot error_png None, Some target_closed), ok BrowserClose,
       ok AsyncPlaywrightExit])"
  by (simp add: run_defs env_toc_click_no_capture_def script_defs)

section \<open>Facts about the steps and about reading a log\<close>

lemma calls_ok: "calls (map ok cs) = cs"
  by (simp add: calls_def comp_def)

lemma calls_append: "calls (a @ b) = calls a @ calls b"
  by (simp add: calls_def)

lemma calls_Cons: "calls ((c, x) # lg) = c # calls lg"
  by (simp add: calls_def)

lemma calls_Nil: "calls [] = []"
  by (simp add: calls_def)

lemmas calls_simps = calls_append calls_Cons calls_Nil calls_ok

lemma png_neq: "verification_png \<noteq> error_png"
  by (simp add: verification_png_def error_png_def)

lemma distinct_steps: "distinct steps"
  by (simp add: steps_def toc_button_def reader_container_def)

lemma not_steps:
  "AsyncPlaywrightEnter \<notin> set steps" "ChromiumLaunch h \<notin> set steps" "NewPage \<notin> set steps"
  "Print s \<notin> set steps" "Screenshot error_png fp \<notin> set steps" "BrowserClose \<notin> set steps"
  "AsyncPlaywrightExit \<notin> set steps"
  using png_neq by (auto simp: steps_def)

lemma not_taken:
  "AsyncPlaywrightEnter \<notin> set (take n steps)" "ChromiumLaunch h \<notin> set (take n steps)"
  "NewPage \<notin> set (take n steps)" "Print s \<notin> set (take n steps)"
  "Screenshot error_png fp \<notin> set (take n steps)" "BrowserClose \<notin> set (take n steps)"
  "AsyncPlaywrightExit \<notin> set (take n steps)"
  using not_steps by (blast dest: in_set_takeD)+

lemma nth_not_fixed:
  assumes "k < length steps"
  shows "steps ! k \<noteq> AsyncPlaywrightEnter" "steps ! k \<noteq> ChromiumLaunch h"
    "steps ! k \<noteq> NewPage" "steps ! k \<noteq> Print s" "steps ! k \<noteq> Screenshot error_png fp"
    "steps ! k \<noteq> BrowserClose" "steps ! k \<noteq> AsyncPlaywrightExit"
  using not_steps nth_mem [OF assms] by metis+

lemma nth_not_taken:
  assumes "k < length steps"
  shows "steps ! k \<notin> set (take k steps)"
proof -
  from assms have "take (Suc k) steps = take k steps @ [steps ! k]"
    by (rule take_Suc_conv_app_nth)
  moreover have "distinct (take (Suc k) steps)"
    using distinct_steps by (rule distinct_take)
  ultimately show ?thesis by simp
qed

lemma takeWhile_before:
  assumes "k < length steps"
  shows "takeWhile (\<lambda>x. x \<noteq> steps ! k) steps = take k steps"
proof -
  from assms have split: "steps = take k steps @ steps ! k # drop (Suc k) steps"
    by (rule id_take_nth_drop)
  have "takeWhile (\<lambda>x. x \<noteq> steps ! k) (take k steps @ steps ! k # drop (Suc k) steps) =
        take k steps @ takeWhile (\<lambda>x. x \<noteq> steps ! k) (steps ! k # drop (Suc k) steps)"
    using nth_not_taken [OF assms] by (intro takeWhile_append2) auto
  with split show ?thesis by simp
qed

lemma stdout_append: "stdout (a @ b) = stdout a @ stdout b"
  by (simp add: stdout_def)

lemma stdout_Cons: "stdout (x # lg) = line_of x @ stdout lg"
  by (simp add: stdout_def)

lemma stdout_Nil: "stdout [] = []"
  by (simp add: stdout_def)

lemma stdout_no_print:
  assumes "\<And>s. Print s \<notin> set cs"
  shows "stdout (map (\<lambda>c. (c, x)) cs) = []"
  using assms
proof (induction cs)
  case Nil
  then show ?case by (simp add: stdout_def)
next
  case (Cons a cs)
  then have "line_of (a, x) = []" by (cases a) auto
  with Cons show ?case by (simp add: stdout_def)
qed

lemma stdout_taken: "stdout (map ok (take n steps)) = []"
  by (rule stdout_no_print) (rule not_taken)

lemma line_of_step:
  assumes "k < length steps"
  shows "line_of (steps ! k, x) = []"
  using nth_not_fixed(4) [OF assms] by (cases "steps ! k") auto

lemmas stdout_simps = stdout_append stdout_Cons stdout_Nil stdout_taken line_of_step

lemma files_written_append: "files_written (a @ b) = files_written a @ files_written b"
  by (simp add: files_written_def)

lemma files_written_Cons: "files_written (x # lg) = wrote x @ files_written lg"
  by (simp add: files_written_def)

lemma files_written_Nil: "files_written [] = []"
  by (simp add: files_written_def)

lemma wrote_raised: "wrote (c, Some e) = []"
  by (cases c) simp_all

lemma files_written_taken:
  assumes "k < length steps"
  shows "files_written (map ok (take k steps)) = []"
  using steps_index [OF assms] by (auto simp: steps_def files_written_def)

lemma files_written_steps: "files_written (map ok steps) = [verification_png]"
  by (simp add: steps_def files_written_def)

lemmas files_simps =
  files_written_append files_written_Cons files_written_Nil wrote_raised files_written_taken
  files_written_steps


lemma step_raised:
  assumes "main env = (r, lg)" and "(c, Some e) \<in> set lg" and "c \<in> set steps"
  obtains (caught) k rs rc rx where
      "k < length steps" "c = steps ! k" "is_Exception e"
      "lg = [ok AsyncPlaywrightEnter, ok (ChromiumLaunch True), ok NewPage] @
            map ok (take k steps) @
            [(c, Some e), ok (Print (''An error occurred: '' @ exc_str e)),
             (Screenshot error_png None, rs), (BrowserClose, rc), (AsyncPlaywrightExit, rx)]"
      "r = (case rx of Some e4 \<Rightarrow> Inl e4
            | None \<Rightarrow> (case rc of Some e3 \<Rightarrow> Inl e3
                | None \<Rightarrow> (case rs of Some e2 \<Rightarrow> Inl e2 | None \<Rightarrow> Inr ())))"
  | (uncaught) k rc rx where
      "k < length steps" "c = steps ! k" "\<not> is_Exception e"
      "lg = [ok AsyncPlaywrightEnter, ok (ChromiumLaunch True), ok NewPage] @
            map ok (take k steps) @
            [(c, Some e), (BrowserClose, rc), (AsyncPlaywrightExit, rx)]"
      "r = (case rx of Some e4 \<Rightarrow> Inl e4
            | None \<Rightarrow> (case rc of Some e3 \<Rightarrow> Inl e3 | None \<Rightarrow> Inl e))"
  using assms(1)
proof (cases rule: main_shape)
  case (enter_raises e')
  with assms(2,3) not_steps show ?thesis by auto
next
  case (launch_raises e' rx)
  with assms(2,3) not_steps show ?thesis by auto
next
  case (new_page_raises e' rx)
  with assms(2,3) not_steps show ?thesis by auto
next
  case (success rc rx)
  with assms(2,3) not_steps show ?thesis by auto
next
  case (handled k e' rs rc rx)
  from assms(2) handled(3) have
    "(c, Some e) \<in> {(steps ! k, Some e'), (Screenshot error_png None, rs), (BrowserClose, rc),
       (AsyncPlaywrightExit, rx)}"
    by auto
  with assms(3) not_steps have "c = steps ! k" and "e = e'"
    by auto
  with handled show ?thesis
    by (intro caught [of k rs rc rx]) (auto split: option.splits)
next
  case (unhandled k e' rc rx)
  from assms(2) unhandled(3) have
    "(c, Some e) \<in> {(steps ! k, Some e'), (BrowserClose, rc), (AsyncPlaywrightExit, rx)}"
    by auto
  with assms(3) not_steps have "c = steps ! k" and "e = e'"
    by auto
  with unhandled show ?thesis
    by (intro uncaught [of k rc rx]) (auto split: option.splits)
qed

lemma count_calls_taken:
  assumes "c \<notin> set steps"
  shows "count_list (take n steps) c = 0"
  using assms by (simp add: count_list_0_iff) (blast dest: in_set_takeD)

section \<open>The claims\<close>

subsection \<open>C1: the top-level handler\<close>

text \<open>
  Claim C1, as the code has it. When a step of the \<^verbatim>\<open>try\<close> body raises an exception that
  is an instance of \<^verbatim>\<open>Exception\<close>, the handler runs once: the calls of the run are the
  entry, the launch, the new page, the steps before the failing one, the failing step, the
  print of \<^verbatim>\<open>An error occurred: \<close> followed by the exception's text, the screenshot to
  \<^verbatim>\<open>error.png\<close>, the close of the browser and the exit. These are the same whichever step
  failed and whatever the exception; that line is the only output; no call is made twice;
  and when the three calls after the print return, \<open>main\<close> returns normally, so the caller
  gets no error.
\<close>

theorem exception_handled_once:
  assumes "main env = (r, lg)" and "(c, Some e) \<in> set lg" and "c \<in> set steps"
    and "is_Exception e"
  shows "calls lg =
           [AsyncPlaywrightEnter, ChromiumLaunch True, NewPage] @
           takeWhile (\<lambda>x. x \<noteq> c) steps @
           [c, Print (''An error occurred: '' @ exc_str e), Screenshot error_png None,
            BrowserClose, AsyncPlaywrightExit] \<and>
         stdout lg = [''An error occurred: '' @ exc_str e] \<and>
         distinct (calls lg) \<and>
         (ok (Screenshot error_png None) \<in> set lg \<and> ok BrowserClose \<in> set lg \<and>
          ok AsyncPlaywrightExit \<in> set lg \<longrightarrow> r = Inr ())"
  using assms(1,2,3)
proof (cases rule: step_raised)
  case (caught k rs rc rx)
  note k = caught(1) and c = caught(2) and lg = caught(4)
  have "distinct (take k steps)"
    using distinct_steps by (rule distinct_take)
  then have "distinct (calls lg)"
    by (simp add: lg c calls_simps not_taken nth_not_fixed [OF k]
        nth_not_fixed [OF k, symmetric] nth_not_taken [OF k])
  moreover have "stdout lg = [''An error occurred: '' @ exc_str e]"
    by (simp add: lg c stdout_simps k)
  moreover have "calls lg =
           [AsyncPlaywrightEnter, ChromiumLaunch True, NewPage] @
           takeWhile (\<lambda>x. x \<noteq> c) steps @
           [c, Print (''An error occurred: '' @ exc_str e), Screenshot error_png None,
            BrowserClose, AsyncPlaywrightExit]"
    by (simp add: lg calls_simps c takeWhile_before [OF k])
  moreover have "ok (Screenshot error_png None) \<in> set lg \<and> ok BrowserClose \<in> set lg \<and>
          ok AsyncPlaywrightExit \<in> set lg \<longrightarrow> r = Inr ()"
    using lg c caught(5) not_taken nth_not_fixed [OF k]
    by (auto split: option.splits)
  ultimately show ?thesis by blast
next
  case (uncaught k rc rx)
  with assms(4) show ?thesis by simp
qed

theorem exception_handled_once_witness:
  "calls (snd (main env_unreachable)) =
     [AsyncPlaywrightEnter, ChromiumLaunch True, NewPage, Goto library_url 60000,
      Print ''An error occurred: Timeout 60000ms exceeded.'', Screenshot error_png None,
      BrowserClose, AsyncPlaywrightExit] \<and>
   stdout (snd (main env_unreachable)) = [''An error occurred: Timeout 60000ms exceeded.''] \<and>
   distinct (calls (snd (main env_unreachable))) \<and>
   fst (main env_unreachable) = Inr ()"
proof -
  have raised: "(Goto library_url 60000, Some timeout_error) \<in> set (snd (main env_unreachable))"
    by (simp add: main_env_unreachable)
  have step: "Goto library_url 60000 \<in> set steps"
    by (simp add: steps_def library_url_def)
  have exc: "is_Exception timeout_error"
    by (simp add: timeout_error_def)
  have before: "takeWhile (\<lambda>x. x \<noteq> Goto library_url 60000) steps = []"
    by (simp add: steps_def library_url_def)
  from exception_handled_once [OF surjective_pairing raised step exc] before
  show ?thesis
    by (simp add: timeout_error_def main_env_unreachable)
qed

text \<open>
  The claim as stated covers any exception. An exception outside \<^verbatim>\<open>Exception\<close> raised by
  the navigation (an interrupt or a cancellation) is not caught: nothing is printed, no
  screenshot is attempted and the exception leaves \<open>main\<close>.
\<close>

theorem uncaught_interrupt_counterexample:
  "(Goto library_url 60000, Some cancelled) \<in> set (snd (main env_interrupted)) \<and>
   Goto library_url 60000 \<in> set steps \<and>
   stdout (snd (main env_interrupted)) = [] \<and>
   Screenshot error_png None \<notin> set (calls (snd (main env_interrupted))) \<and>
   fst (main env_interrupted) = Inl cancelled"
  by (simp add: main_env_interrupted stdout_def calls_def steps_def library_url_def)

subsection \<open>C2: closing the browser\<close>

text \<open>
  Claim C2, as the code has it. \<^verbatim>\<open>browser.close()\<close> is called exactly when
  \<^verbatim>\<open>new_page\<close> has returned, that is when the \<^verbatim>\<open>try\<close> statement is entered; then it is
  called exactly once, whatever happens in the steps and in the handler, and it is the last
  call before the exit of the \<^verbatim>\<open>async with\<close> block.
\<close>

theorem close_iff_page_opened:
  assumes "main env = (r, lg)"
  shows "(BrowserClose \<in> set (calls lg)) = (ok NewPage \<in> set lg) \<and>
         count_list (calls lg) BrowserClose = (if ok NewPage \<in> set lg then 1 else 0) \<and>
         (ok NewPage \<in> set lg \<longrightarrow>
            take 2 (rev (calls lg)) = [AsyncPlaywrightExit, BrowserClose])"
  using assms
proof (cases rule: main_shape)
  case (success rc rx)
  then show ?thesis
    by (simp add: calls_simps not_steps count_list_0_iff)
next
  case (handled k e rs rc rx)
  then show ?thesis
    by (simp add: calls_simps not_taken nth_not_fixed [OF handled(1)]
        nth_not_fixed [OF handled(1), symmetric] count_calls_taken not_steps)
next
  case (unhandled k e rc rx)
  then show ?thesis
    by (simp add: calls_simps not_taken nth_not_fixed [OF unhandled(1)]
        nth_not_fixed [OF unhandled(1), symmetric] count_calls_taken not_steps)
qed (simp_all add: calls_simps)

theorem close_iff_page_opened_witness:
  "ok NewPage \<in> set (snd (main env_toc_click_no_capture)) \<and>
   count_list (calls (snd (main env_toc_click_no_capture))) BrowserClose = 1 \<and>
   take 2 (rev (calls (snd (main env_toc_click_no_capture)))) =
     [AsyncPlaywrightExit, BrowserClose]"
proof -
  have page: "ok NewPage \<in> set (snd (main env_toc_click_no_capture))"
    by (simp add: main_env_toc_click_no_capture)
  from close_iff_page_opened [OF surjective_pairing, of env_toc_click_no_capture] page
  show ?thesis by simp
qed

text \<open>
  The claim as stated covers every exit path. When \<^verbatim>\<open>new_page\<close> raises, the browser has
  been launched and \<^verbatim>\<open>browser.close()\<close> is never called: line 7 is outside the
  \<^verbatim>\<open>try\<close> statement.
\<close>

theorem close_skipped_counterexample:
  "ok (ChromiumLaunch True) \<in> set (snd (main env_no_page)) \<and>
   BrowserClose \<notin> set (calls (snd (main env_no_page)))"
  by (simp add: main_env_no_page calls_def)

subsection \<open>C3: the timeouts\<close>






subsection \<open>C4: the screenshot files\<close>


lemma screenshots_taken:
  assumes "k < length steps"
  shows "filter is_screenshot (take k steps) = []"
  using steps_index [OF assms] by (auto simp: steps_def)





subsection \<open>C5: the files after a failed step, and the close\<close>




subsection \<open>C10: the screenshot of the handler raises\<close>

text \<open>
  Claim C10. When the screenshot inside the handler raises \<open>e2\<close>, the program ends with an
  exception (it is \<open>e2\<close> when the close and the exit return): nothing catches it. The
  browser is still closed: the last three calls of the run are the failed screenshot,
  \<^verbatim>\<open>browser.close()\<close> and the exit of the \<^verbatim>\<open>async with\<close> block, and the close is called
  once. The run writes no file, and the handler has printed its one line and is not entered
  again.
\<close>

theorem handler_screenshot_raises:
  assumes "program env = (r, lg)" and "(Screenshot error_png None, Some e2) \<in> set lg"
  shows "isl r \<and>
         (ok BrowserClose \<in> set lg \<and> ok AsyncPlaywrightExit \<in> set lg \<longrightarrow> r = Inl e2) \<and>
         take 3 (rev (calls lg)) =
           [AsyncPlaywrightExit, BrowserClose, Screenshot error_png None] \<and>
         count_list (calls lg) BrowserClose = 1 \<and>
         files_written lg = [] \<and>
         length (stdout lg) = 1"
proof -
  from assms(1) have "main env = (r, lg)" by (simp add: program_def)
  then show ?thesis
  proof (cases rule: main_shape)
    case (enter_raises e)
    with assms(2) show ?thesis by simp
  next
    case (launch_raises e rx)
    with assms(2) show ?thesis by simp
  next
    case (new_page_raises e rx)
    with assms(2) show ?thesis by simp
  next
    case (success rc rx)
    with assms(2) not_steps show ?thesis by auto
  next
    case (unhandled k e rc rx)
    with assms(2) not_taken nth_not_fixed [OF unhandled(1)]
      nth_not_fixed [OF unhandled(1), symmetric]
    show ?thesis by auto
  next
    case (handled k e rs rc rx)
    note k = handled(1) and lg = handled(3)
    from assms(2) not_taken nth_not_fixed [OF k] nth_not_fixed [OF k, symmetric]
    have rs: "rs = Some e2"
      by (auto simp: lg)
    have "isl r"
      by (cases rc; cases rx) (simp_all add: handled(4) rs)
    moreover have "ok BrowserClose \<in> set lg \<and> ok AsyncPlaywrightExit \<in> set lg \<longrightarrow> r = Inl e2"
      using not_taken nth_not_fixed [OF k]
      by (cases rc; cases rx) (auto simp: lg handled(4) rs)
    moreover have "take 3 (rev (calls lg)) =
        [AsyncPlaywrightExit, BrowserClose, Screenshot error_png None]"
      by (simp add: lg calls_simps)
    moreover have "count_list (calls lg) BrowserClose = 1"
      using nth_not_fixed [OF k]
      by (simp add: lg calls_simps count_calls_taken not_steps)
    moreover have "files_written lg = []"
      by (cases rc; cases rx) (simp_all add: lg rs files_simps k)
    moreover have "length (stdout lg) = 1"
      by (simp add: lg stdout_simps k)
    ultimately show ?thesis by blast
  qed
qed

theorem handler_screenshot_raises_witness:
  "fst (program env_toc_click_no_capture) = Inl target_closed \<and>
   take 3 (rev (calls (snd (program env_toc_click_no_capture)))) =
     [AsyncPlaywrightExit, BrowserClose, Screenshot error_png None] \<and>
   count_list (calls (snd (program env_toc_click_no_capture))) BrowserClose = 1 \<and>
   files_written (snd (program env_toc_click_no_capture)) = []"
proof -
  have run: "program env_toc_click_no_capture = main env_toc_click_no_capture"
    by (simp add: program_def)
  have raised: "(Screenshot error_png None, Some target_closed)
      \<in> set (snd (program env_toc_click_no_capture))"
    by (simp add: run main_env_toc_click_no_capture)
  have returned: "ok BrowserClose \<in> set (snd (program env_toc_click_no_capture))"
    "ok AsyncPlaywrightExit \<in> set (snd (program env_toc_click_no_capture))"
    by (simp_all add: run main_env_toc_click_no_capture)
  from handler_screenshot_raises [OF surjective_pairing raised] returned
  show ?thesis by simp
qed

subsection \<open>C9: one browser and one page\<close>


lemma launch_not_step:
  assumes "c \<in> set steps"
  shows "\<not> is_launch c"
  using assms by (auto simp: steps_def)

lemma launches_taken: "filter is_launch (take n steps) = []"
  by (auto simp: filter_empty_conv dest: in_set_takeD launch_not_step)

lemma launches_steps: "filter is_launch steps = []"
  by (auto simp: filter_empty_conv dest: launch_not_step)

lemma filter_take_le: "length (filter P (take n xs)) \<le> length (filter P xs)"
proof -
  have "length (filter P xs) = length (filter P (take n xs)) + length (filter P (drop n xs))"
    by (metis append_take_drop_id filter_append length_append)
  then show ?thesis by simp
qed

lemma count_take_le: "count_list (take n xs) x \<le> count_list xs x"
proof -
  have "count_list xs x = count_list (take n xs) x + count_list (drop n xs) x"
    by (metis append_take_drop_id count_list_append)
  then show ?thesis by simp
qed

lemma calls_take: "calls (take n lg) = take n (calls lg)"
  by (simp add: calls_def take_map)

text \<open>
  Claim C9. A run launches a browser exactly once when the \<^verbatim>\<open>async with\<close> block is
  entered and never otherwise, and opens a page exactly once when the launch has returned
  and never otherwise; so at every point of a run at most one browser has been launched and
  at most one page opened, and no later call creates a second one.
\<close>

theorem one_browser_one_page:
  assumes "main env = (r, lg)"
  shows "length (filter is_launch (calls lg)) =
           (if ok AsyncPlaywrightEnter \<in> set lg then 1 else 0) \<and>
         count_list (calls lg) NewPage = (if ok (ChromiumLaunch True) \<in> set lg then 1 else 0) \<and>
         (\<forall>n. length (filter is_launch (calls (take n lg))) \<le> 1 \<and>
              count_list (calls (take n lg)) NewPage \<le> 1)"
proof -
  have whole: "length (filter is_launch (calls lg)) =
           (if ok AsyncPlaywrightEnter \<in> set lg then 1 else 0) \<and>
         count_list (calls lg) NewPage = (if ok (ChromiumLaunch True) \<in> set lg then 1 else 0)"
    using assms
  proof (cases rule: main_shape)
    case (success rc rx)
    then show ?thesis
      by (simp add: calls_simps launches_steps not_steps)
  next
    case (handled k e rs rc rx)
    note k = handled(1)
    from launch_not_step [OF nth_mem [OF k]] handled(3) show ?thesis
      by (simp add: calls_simps launches_taken count_calls_taken not_steps
          nth_not_fixed [OF k] nth_not_fixed [OF k, symmetric])
  next
    case (unhandled k e rc rx)
    note k = unhandled(1)
    from launch_not_step [OF nth_mem [OF k]] unhandled(3) show ?thesis
      by (simp add: calls_simps launches_taken count_calls_taken not_steps
          nth_not_fixed [OF k] nth_not_fixed [OF k, symmetric])
  qed (simp_all add: calls_simps)
  have "length (filter is_launch (calls (take n lg))) \<le> 1 \<and>
        count_list (calls (take n lg)) NewPage \<le> 1" for n
  proof -
    have "length (filter is_launch (calls (take n lg))) \<le> length (filter is_launch (calls lg))"
      unfolding calls_take by (rule filter_take_le)
    moreover have "count_list (calls (take n lg)) NewPage \<le> count_list (calls lg) NewPage"
      unfolding calls_take by (rule count_take_le)
    ultimately show ?thesis using whole by (simp split: if_splits)
  qed
  with whole show ?thesis by blast
qed

theorem one_browser_one_page_witness:
  "length (filter is_launch (calls (snd (main env_ok)))) = 1 \<and>
   count_list (calls (snd (main env_ok))) NewPage = 1 \<and>
   length (filter is_launch (calls (take 5 (snd (main env_ok))))) \<le> 1"
proof -
  have entered: "ok AsyncPlaywrightEnter \<in> set (snd (main env_ok))"
    "ok (ChromiumLaunch True) \<in> set (snd (main env_ok))"
    by (simp_all add: main_env_ok)
  from one_browser_one_page [OF surjective_pairing, of env_ok] entered
  show ?thesis by simp
qed

subsection \<open>C6: the fixed linear sequence\<close>






subsection \<open>C7: the scroll\<close>

text \<open>
  Claim C7 is about what the browser does with the function the script hands it: where the
  pane ends up, and whether the evaluation raises. Neither is decided by the script, so in
  this model both belong to the environment. What the script fixes is the call: step 7
  evaluates the text below on the locator of the reading-pane container, and the run in
  which every call returns makes this call.
\<close>

lemma scroll_step:
  "steps ! 8 =
     Evaluate (Css ''.epub-container'')
       ''(element) => { element.scrollTo(0, element.scrollHeight / 2); }'' \<and>
   steps ! 8 \<in> set (calls (snd (main env_ok)))"
  by (simp add: main_env_ok calls_simps steps_def reader_container_def
      reader_container_selector_def scroll_script_def)

subsection \<open>C8: visibility waits before interactions\<close>







end
